theory Spec2Isabelle
  imports Main
begin

section \<open>JavaScript strings\<close>

text \<open>
  A JavaScript string is modelled as a \<^typ>\<open>string\<close>, one \<^typ>\<open>char\<close> per code unit,
  for the code units \<open>0x00\<close> to \<open>0xFF\<close>. The operations below are the built-in string
  methods the two routines call, on these code units: \<open>toLowerCase\<close> maps \<open>A\<close>..\<open>Z\<close> and the
  capital letters \<open>U+00C0\<close>..\<open>U+00DE\<close> (all but the sign \<open>U+00D7\<close>) to their small letters,
  and \<open>trim\<close> removes tab, line feed, vertical tab, form feed, carriage return, space and
  the no-break space \<open>U+00A0\<close>.
\<close>

definition js_startsWith :: "string \<Rightarrow> string \<Rightarrow> bool" where
  "js_startsWith s p = (take (length p) s = p)"

definition js_endsWith :: "string \<Rightarrow> string \<Rightarrow> bool" where
  "js_endsWith s p = (length p \<le> length s \<and> drop (length s - length p) s = p)"

text \<open>\<open>s.includes(p)\<close>: \<open>p\<close> occurs in \<open>s\<close> as a substring.\<close>

fun js_includes :: "string \<Rightarrow> string \<Rightarrow> bool" where
  "js_includes [] p = (p = [])"
| "js_includes (c # cs) p = (js_startsWith (c # cs) p \<or> js_includes cs p)"

text \<open>\<open>s.split('\n')\<close>: never empty; a trailing newline gives a last empty piece.\<close>

fun js_split_nl :: "string \<Rightarrow> string list" where
  "js_split_nl [] = [[]]"
| "js_split_nl (c # cs) =
     (if c = CHR 0x0A then [] # js_split_nl cs
      else (case js_split_nl cs of [] \<Rightarrow> [[c]] | l # ls \<Rightarrow> (c # l) # ls))"

definition js_isWhiteSpace :: "char \<Rightarrow> bool" where
  "js_isWhiteSpace c =
     (c \<in> set [CHR 0x09, CHR 0x0A, CHR 0x0B, CHR 0x0C, CHR 0x0D, CHR 0x20, CHR 0xA0])"

definition js_trim :: "string \<Rightarrow> string" where
  "js_trim s = rev (dropWhile js_isWhiteSpace (rev (dropWhile js_isWhiteSpace s)))"

definition upper_letters :: string where
  "upper_letters = ''ABCDEFGHIJKLMNOPQRSTUVWXYZ''"

definition lower_letters :: string where
  "lower_letters = ''abcdefghijklmnopqrstuvwxyz''"

definition upper_latin1 :: string where
  "upper_latin1 =
         [CHR 0xC0, CHR 0xC1, CHR 0xC2, CHR 0xC3, CHR 0xC4, CHR 0xC5, CHR 0xC6, CHR 0xC7,
          CHR 0xC8, CHR 0xC9, CHR 0xCA, CHR 0xCB, CHR 0xCC, CHR 0xCD, CHR 0xCE, CHR 0xCF,
          CHR 0xD0, CHR 0xD1, CHR 0xD2, CHR 0xD3, CHR 0xD4, CHR 0xD5, CHR 0xD6, CHR 0xD8,
          CHR 0xD9, CHR 0xDA, CHR 0xDB, CHR 0xDC, CHR 0xDD, CHR 0xDE]"

definition lower_latin1 :: string where
  "lower_latin1 =
         [CHR 0xE0, CHR 0xE1, CHR 0xE2, CHR 0xE3, CHR 0xE4, CHR 0xE5, CHR 0xE6, CHR 0xE7,
          CHR 0xE8, CHR 0xE9, CHR 0xEA, CHR 0xEB, CHR 0xEC, CHR 0xED, CHR 0xEE, CHR 0xEF,
          CHR 0xF0, CHR 0xF1, CHR 0xF2, CHR 0xF3, CHR 0xF4, CHR 0xF5, CHR 0xF6, CHR 0xF8,
          CHR 0xF9, CHR 0xFA, CHR 0xFB, CHR 0xFC, CHR 0xFD, CHR 0xFE]"

definition js_lower_char :: "char \<Rightarrow> char" where
  "js_lower_char c =
     (case map_of (zip (upper_letters @ upper_latin1) (lower_letters @ lower_latin1)) c of
        None \<Rightarrow> c
      | Some d \<Rightarrow> d)"

definition js_toLowerCase :: "string \<Rightarrow> string" where
  "js_toLowerCase s = map js_lower_char s"

definition digit_val :: "char \<Rightarrow> nat option" where
  "digit_val c = map_of (zip ''0123456789'' [0, 1, 2, 3, 4, 5, 6, 7, 8, 9]) c"

definition js_isDigit :: "char \<Rightarrow> bool" where
  "js_isDigit c = (digit_val c \<noteq> None)"

text \<open>The number a string of decimal digits denotes (\<open>Number("05") = 5\<close>).\<close>

definition digits_value :: "string \<Rightarrow> nat" where
  "digits_value ds = foldl (\<lambda>n c. 10 * n + (case digit_val c of None \<Rightarrow> 0 | Some d \<Rightarrow> d)) 0 ds"

section \<open>JSON values\<close>

text \<open>
  The values \<open>JSON.parse\<close> can return. \<open>JNull\<close> is JavaScript's \<open>null\<close>; a property
  that is absent reads as \<open>undefined\<close>, which the model writes \<open>None\<close>. An object is its
  list of members in source order. A number is kept as an integer: the code below only
  ever tests a number for truthiness, that is for being non-zero.
\<close>

datatype json =
    JNull
  | JBool bool
  | JNum int
  | JStr string
  | JArr "json list"
  | JObj "(string \<times> json) list"

text \<open>JavaScript truthiness of a JSON value: \<open>null\<close>, \<open>false\<close>, \<open>0\<close> and \<open>""\<close> are falsy.\<close>

fun truthy :: "json \<Rightarrow> bool" where
  "truthy JNull = False"
| "truthy (JBool b) = b"
| "truthy (JNum n) = (n \<noteq> 0)"
| "truthy (JStr s) = (s \<noteq> [])"
| "truthy (JArr _) = True"
| "truthy (JObj _) = True"

text \<open>
  \<open>v.k\<close> for a value that is not \<open>null\<close>: the member of an object (the last one when a
  key is repeated, as \<open>JSON.parse\<close> keeps it), \<open>undefined\<close> on anything else for the
  property names used here.
\<close>

fun js_get :: "json \<Rightarrow> string \<Rightarrow> json option" where
  "js_get (JObj kvs) k = map_of (rev kvs) k"
| "js_get _ k = None"

subsection \<open>A reference JSON reader\<close>

text \<open>
  \<open>JSON.parse\<close> belongs to the platform, not to the repository, so the routines below take
  the parser as a parameter \<open>parse\<close> (\<open>None\<close> when it throws) and the general theorems hold
  for every parser. The concrete examples run on \<open>json_parse\<close>, a reader for the JSON
  grammar (objects, arrays, strings with their escapes, integers, the three literals,
  white space). It does not read fractions, exponents or \<open>\u\<close> escapes above \<open>00ff\<close>.
\<close>

datatype token =
    TLBrace | TRBrace | TLBrack | TRBrack | TColon | TComma
  | TStr string
  | TNum int
  | TLit json

datatype lexmode =
    LTop
  | LStr string
  | LEsc string
  | LHex string "nat list"
  | LNum bool "nat list"
  | LLit string json

definition hex_val :: "char \<Rightarrow> nat option" where
  "hex_val c =
     map_of (zip ''0123456789abcdefABCDEF''
                 [0, 1, 2, 3, 4, 5, 6, 7, 8, 9, 10, 11, 12, 13, 14, 15, 10, 11, 12, 13, 14, 15]) c"

definition json_ws :: "char \<Rightarrow> bool" where
  "json_ws c = (c \<in> set [CHR 0x20, CHR 0x09, CHR 0x0A, CHR 0x0D])"

definition num_token :: "bool \<Rightarrow> nat list \<Rightarrow> token" where
  "num_token neg ds =
     (let n = int (foldl (\<lambda>a d. 10 * a + d) 0 ds) in TNum (if neg then - n else n))"

definition punct :: "char \<Rightarrow> token option" where
  "punct c =
     map_of [(CHR ''{'', TLBrace), (CHR ''}'', TRBrace), (CHR ''['', TLBrack),
             (CHR '']'', TRBrack), (CHR '':'', TColon), (CHR '','', TComma)] c"

definition escape_char :: "char \<Rightarrow> char option" where
  "escape_char c =
     map_of [(CHR 0x22, CHR 0x22), (CHR 0x5C, CHR 0x5C), (CHR ''/'', CHR ''/''),
             (CHR ''b'', CHR 0x08), (CHR ''f'', CHR 0x0C), (CHR ''n'', CHR 0x0A),
             (CHR ''r'', CHR 0x0D), (CHR ''t'', CHR 0x09)] c"

text \<open>
  The lexer reads one character at a time. \<open>LStr s\<close> is inside a string literal with the
  characters \<open>s\<close> read so far (latest first), \<open>LEsc\<close> after a backslash, \<open>LHex\<close> inside
  \<open>\uXXXX\<close>, \<open>LNum\<close> inside a number, \<open>LLit r v\<close> inside a literal with \<open>r\<close> still to come.
\<close>

fun json_lex :: "lexmode \<Rightarrow> token list \<Rightarrow> string \<Rightarrow> token list option" where
  "json_lex LTop acc [] = Some (rev acc)"
| "json_lex (LNum neg ds) acc [] = (if ds = [] then None else Some (rev (num_token neg ds # acc)))"
| "json_lex (LStr s) acc [] = None"
| "json_lex (LEsc s) acc [] = None"
| "json_lex (LHex s ds) acc [] = None"
| "json_lex (LLit r v) acc [] = None"
| "json_lex LTop acc (c # cs) =
     (if json_ws c then json_lex LTop acc cs
      else case punct c of
        Some t \<Rightarrow> json_lex LTop (t # acc) cs
      | None \<Rightarrow>
         (if c = CHR 0x22 then json_lex (LStr []) acc cs
          else if c = CHR ''-'' then json_lex (LNum True []) acc cs
          else if c = CHR ''t'' then json_lex (LLit ''rue'' (JBool True)) acc cs
          else if c = CHR ''f'' then json_lex (LLit ''alse'' (JBool False)) acc cs
          else if c = CHR ''n'' then json_lex (LLit ''ull'' JNull) acc cs
          else case digit_val c of
            Some d \<Rightarrow> json_lex (LNum False [d]) acc cs
          | None \<Rightarrow> None))"
| "json_lex (LStr s) acc (c # cs) =
     (if c = CHR 0x22 then json_lex LTop (TStr (rev s) # acc) cs
      else if c = CHR 0x5C then json_lex (LEsc s) acc cs
      else if (of_char c :: nat) < 32 then None
      else json_lex (LStr (c # s)) acc cs)"
| "json_lex (LEsc s) acc (c # cs) =
     (if c = CHR ''u'' then json_lex (LHex s []) acc cs
      else case escape_char c of
        Some e \<Rightarrow> json_lex (LStr (e # s)) acc cs
      | None \<Rightarrow> None)"
| "json_lex (LHex s ds) acc (c # cs) =
     (case hex_val c of
        None \<Rightarrow> None
      | Some d \<Rightarrow>
         (if length ds < 3 then json_lex (LHex s (ds @ [d])) acc cs
          else (let n = foldl (\<lambda>a h. 16 * a + h) 0 (ds @ [d])
                in if n < 256 then json_lex (LStr (char_of n # s)) acc cs else None)))"
| "json_lex (LNum neg ds) acc (c # cs) =
     (case digit_val c of
        Some d \<Rightarrow> (if ds = [0] then None else json_lex (LNum neg (ds @ [d])) acc cs)
      | None \<Rightarrow>
         (if ds = [] then None
          else if json_ws c then json_lex LTop (num_token neg ds # acc) cs
          else case punct c of
            Some t \<Rightarrow> json_lex LTop (t # num_token neg ds # acc) cs
          | None \<Rightarrow> None))"
| "json_lex (LLit r v) acc (c # cs) =
     (case r of
        [] \<Rightarrow> None
      | x # xs \<Rightarrow>
         (if c \<noteq> x then None
          else if xs = [] then json_lex LTop (TLit v # acc) cs
          else json_lex (LLit xs v) acc cs))"

text \<open>
  The parser runs over the tokens with a stack of the containers that are still open:
  an array with its elements so far, an object with its members so far and the key whose
  value is awaited (both latest first).
\<close>

datatype frame =
    FArr "json list"
  | FObj "(string \<times> json) list" string

datatype pmode =
    PValue
  | PArrFirst
  | PObjFirst
  | PKey
  | PColon
  | PAfter
  | PDone json

fun push_value :: "json \<Rightarrow> frame list \<Rightarrow> pmode \<times> frame list" where
  "push_value v [] = (PDone v, [])"
| "push_value v (FArr vs # st) = (PAfter, FArr (v # vs) # st)"
| "push_value v (FObj kvs k # st) = (PAfter, FObj ((k, v) # kvs) k # st)"

fun open_value :: "token \<Rightarrow> frame list \<Rightarrow> (pmode \<times> frame list) option" where
  "open_value (TStr s) st = Some (push_value (JStr s) st)"
| "open_value (TNum n) st = Some (push_value (JNum n) st)"
| "open_value (TLit v) st = Some (push_value v st)"
| "open_value TLBrack st = Some (PArrFirst, FArr [] # st)"
| "open_value TLBrace st = Some (PObjFirst, FObj [] [] # st)"
| "open_value _ st = None"

fun pstep :: "pmode \<Rightarrow> frame list \<Rightarrow> token \<Rightarrow> (pmode \<times> frame list) option" where
  "pstep PValue st t = open_value t st"
| "pstep PArrFirst (FArr vs # st) TRBrack = Some (push_value (JArr (rev vs)) st)"
| "pstep PArrFirst st t = open_value t st"
| "pstep PObjFirst (FObj kvs k # st) TRBrace = Some (push_value (JObj (rev kvs)) st)"
| "pstep PObjFirst (FObj kvs k # st) (TStr k') = Some (PColon, FObj kvs k' # st)"
| "pstep PKey (FObj kvs k # st) (TStr k') = Some (PColon, FObj kvs k' # st)"
| "pstep PColon st TColon = Some (PValue, st)"
| "pstep PAfter (FArr vs # st) TComma = Some (PValue, FArr vs # st)"
| "pstep PAfter (FArr vs # st) TRBrack = Some (push_value (JArr (rev vs)) st)"
| "pstep PAfter (FObj kvs k # st) TComma = Some (PKey, FObj kvs k # st)"
| "pstep PAfter (FObj kvs k # st) TRBrace = Some (push_value (JObj (rev kvs)) st)"
| "pstep _ _ _ = None"

fun prun :: "pmode \<Rightarrow> frame list \<Rightarrow> token list \<Rightarrow> json option" where
  "prun (PDone v) [] [] = Some v"
| "prun m st [] = None"
| "prun m st (t # ts) =
     (case pstep m st t of None \<Rightarrow> None | Some (m', st') \<Rightarrow> prun m' st' ts)"

definition json_parse :: "string \<Rightarrow> json option" where
  "json_parse s = (case json_lex LTop [] s of None \<Rightarrow> None | Some ts \<Rightarrow> prun PValue [] ts)"

section \<open>The stream scan of the form submission flows\<close>

text \<open>
  \<open>handleSubmit\<close> of \<open>QuizForm\<close>, \<open>LessonPlanForm\<close> and \<open>AgentQuizForm\<close> reads the response
  body chunk by chunk. The two variables the loop closes over, \<open>conversationId\<close> (initially
  \<open>null\<close>) and \<open>isComplete\<close>, are the state; the state after the loop is the scan's result.
  A chunk is given as the text \<open>new TextDecoder().decode(value)\<close> yields for it, and the
  stream as the list of its chunks, after which \<open>reader.read()\<close> reports \<open>done\<close>.
\<close>

record scan_state =
  conversationId :: json
  isComplete :: bool

definition initial_state :: scan_state where
  "initial_state = \<lparr>conversationId = JNull, isComplete = False\<rparr>"

text \<open>
  \<open>parsed.message?.conversationId\<close> for \<open>parsed\<close> other than \<open>null\<close>: \<open>undefined\<close> when
  \<open>message\<close> is \<open>undefined\<close> or \<open>null\<close>.
\<close>

definition nested_conversationId :: "json \<Rightarrow> json option" where
  "nested_conversationId parsed =
     (case js_get parsed ''message'' of
        None \<Rightarrow> None
      | Some m \<Rightarrow> if m = JNull then None else js_get m ''conversationId'')"

text \<open>\<open>parsed.final === true || parsed.done === true\<close>\<close>

definition completion_signal :: "json \<Rightarrow> bool" where
  "completion_signal parsed =
     (js_get parsed ''final'' = Some (JBool True) \<or> js_get parsed ''done'' = Some (JBool True))"

text \<open>
  The body of the \<open>try\<close> in \<open>QuizForm\<close>, after \<open>JSON.parse\<close> has returned \<open>parsed\<close>:
  \<open>if (!conversationId && parsed.message?.conversationId)\<close>, then the completion test.
\<close>

definition QuizForm_event :: "scan_state \<Rightarrow> json \<Rightarrow> scan_state" where
  "QuizForm_event st parsed =
     (let st1 = (case nested_conversationId parsed of
                   None \<Rightarrow> st
                 | Some cid \<Rightarrow>
                     if \<not> truthy (conversationId st) \<and> truthy cid
                     then st\<lparr>conversationId := cid\<rparr> else st)
      in if completion_signal parsed then st1\<lparr>isComplete := True\<rparr> else st1)"

text \<open>
  One line of a chunk. A line without the prefix is passed over. When \<open>JSON.parse\<close>
  throws, or \<open>parsed\<close> is \<open>null\<close> so that \<open>parsed.message\<close> throws, the \<open>catch\<close> continues
  with the next line and the state is as it was.
\<close>

definition QuizForm_line :: "(string \<Rightarrow> json option) \<Rightarrow> scan_state \<Rightarrow> string \<Rightarrow> scan_state" where
  "QuizForm_line parse st line =
     (if js_startsWith line ''data: '' then
        (case parse (drop 6 line) of
           None \<Rightarrow> st
         | Some parsed \<Rightarrow> if parsed = JNull then st else QuizForm_event st parsed)
      else st)"

text \<open>
  \<open>LessonPlanForm\<close> tests \<open>conversationId === null && parsed.message?.conversationId !==
  undefined\<close> instead.
\<close>

definition LessonPlanForm_event :: "scan_state \<Rightarrow> json \<Rightarrow> scan_state" where
  "LessonPlanForm_event st parsed =
     (let st1 = (case nested_conversationId parsed of
                   None \<Rightarrow> st
                 | Some cid \<Rightarrow>
                     if conversationId st = JNull
                     then st\<lparr>conversationId := cid\<rparr> else st)
      in if completion_signal parsed then st1\<lparr>isComplete := True\<rparr> else st1)"

definition LessonPlanForm_line :: "(string \<Rightarrow> json option) \<Rightarrow> scan_state \<Rightarrow> string \<Rightarrow> scan_state" where
  "LessonPlanForm_line parse st line =
     (if js_startsWith line ''data: '' then
        (case parse (drop 6 line) of
           None \<Rightarrow> st
         | Some parsed \<Rightarrow> if parsed = JNull then st else LessonPlanForm_event st parsed)
      else st)"

text \<open>\<open>AgentQuizForm\<close> (\<open>QuizForm_Agent.tsx\<close>) has the same two tests as \<open>LessonPlanForm\<close>.\<close>

definition AgentQuizForm_event :: "scan_state \<Rightarrow> json \<Rightarrow> scan_state" where
  "AgentQuizForm_event st parsed =
     (let st1 = (case nested_conversationId parsed of
                   None \<Rightarrow> st
                 | Some cid \<Rightarrow>
                     if conversationId st = JNull
                     then st\<lparr>conversationId := cid\<rparr> else st)
      in if completion_signal parsed then st1\<lparr>isComplete := True\<rparr> else st1)"

definition AgentQuizForm_line :: "(string \<Rightarrow> json option) \<Rightarrow> scan_state \<Rightarrow> string \<Rightarrow> scan_state" where
  "AgentQuizForm_line parse st line =
     (if js_startsWith line ''data: '' then
        (case parse (drop 6 line) of
           None \<Rightarrow> st
         | Some parsed \<Rightarrow> if parsed = JNull then st else AgentQuizForm_event st parsed)
      else st)"

text \<open>\<open>for (const line of chunk.split('\n'))\<close>: every line of the chunk, in order.\<close>

definition scan_chunk :: "(scan_state \<Rightarrow> string \<Rightarrow> scan_state) \<Rightarrow> scan_state \<Rightarrow> string \<Rightarrow> scan_state" where
  "scan_chunk on_line st chunk = foldl on_line st (js_split_nl chunk)"

text \<open>
  \<open>while (!isComplete)\<close>: the three flows have the same loop around their line handler.
  At the end of the stream \<open>done\<close> sets \<open>isComplete\<close> and breaks.
\<close>

fun read_loop :: "(scan_state \<Rightarrow> string \<Rightarrow> scan_state) \<Rightarrow> scan_state \<Rightarrow> string list \<Rightarrow> scan_state" where
  "read_loop on_line st [] = (if isComplete st then st else st\<lparr>isComplete := True\<rparr>)"
| "read_loop on_line st (chunk # rest) =
     (if isComplete st then st else read_loop on_line (scan_chunk on_line st chunk) rest)"

definition QuizForm_scan :: "(string \<Rightarrow> json option) \<Rightarrow> string list \<Rightarrow> scan_state" where
  "QuizForm_scan parse chunks = read_loop (QuizForm_line parse) initial_state chunks"

definition LessonPlanForm_scan :: "(string \<Rightarrow> json option) \<Rightarrow> string list \<Rightarrow> scan_state" where
  "LessonPlanForm_scan parse chunks = read_loop (LessonPlanForm_line parse) initial_state chunks"

definition AgentQuizForm_scan :: "(string \<Rightarrow> json option) \<Rightarrow> string list \<Rightarrow> scan_state" where
  "AgentQuizForm_scan parse chunks = read_loop (AgentQuizForm_line parse) initial_state chunks"

text \<open>
  What a line contributes when the scan looks at it: the JSON event it carries (none when
  the prefix is missing, the parse fails or the value is \<open>null\<close>), whether that event
  signals completion, and the truthy conversation identifier it carries.
\<close>

definition line_event :: "(string \<Rightarrow> json option) \<Rightarrow> string \<Rightarrow> json option" where
  "line_event parse line =
     (if js_startsWith line ''data: '' then
        (case parse (drop 6 line) of
           None \<Rightarrow> None
         | Some parsed \<Rightarrow> if parsed = JNull then None else Some parsed)
      else None)"

definition line_terminal :: "(string \<Rightarrow> json option) \<Rightarrow> string \<Rightarrow> bool" where
  "line_terminal parse line =
     (case line_event parse line of None \<Rightarrow> False | Some parsed \<Rightarrow> completion_signal parsed)"

definition line_truthy_id :: "(string \<Rightarrow> json option) \<Rightarrow> string \<Rightarrow> json option" where
  "line_truthy_id parse line =
     (case line_event parse line of
        None \<Rightarrow> None
      | Some parsed \<Rightarrow>
         (case nested_conversationId parsed of
            None \<Rightarrow> None
          | Some cid \<Rightarrow> if truthy cid then Some cid else None))"

section \<open>The moderation category parser\<close>

text \<open>
  \<open>response.replace(/```json\n|\n```/g, '')\<close>: from left to right, every occurrence of
  the opening fence with its newline, or of a newline with the closing fence, is removed.
\<close>

function strip_fences :: "string \<Rightarrow> string" where
  "strip_fences [] = []"
| "strip_fences (c # cs) =
     (if js_startsWith (c # cs) ''```json\<newline>'' then strip_fences (drop 7 cs)
      else if js_startsWith (c # cs) ''\<newline>```'' then strip_fences (drop 3 cs)
      else c # strip_fences cs)"
  by pat_completeness auto
termination
  by (relation "measure length") auto

text \<open>\<open>cleanResponse\<close>: the reply without its fences, trimmed.\<close>

definition clean_response :: "string \<Rightarrow> string" where
  "clean_response response = js_trim (strip_fences response)"

text \<open>
  The line-based parsing keeps the lines that, trimmed and in lower case, are not empty
  and not narrative; if all of them contain \<open>safe\<close> the result is \<open>['safe']\<close>, otherwise
  those that do not speak of \<open>the message\<close> or \<open>this content\<close>.
\<close>

definition kept_line :: "string \<Rightarrow> bool" where
  "kept_line line =
     (length line > 0 \<and>
      \<not> js_includes line ''no harmful content'' \<and>
      \<not> js_includes line ''analysis:'' \<and>
      \<not> js_includes line ''categories:'')"

definition fallback_lines :: "string \<Rightarrow> string list" where
  "fallback_lines cleanResponse =
     filter kept_line (map (\<lambda>line. js_toLowerCase (js_trim line)) (js_split_nl cleanResponse))"

definition line_based :: "string \<Rightarrow> string list" where
  "line_based cleanResponse =
     (let lines = fallback_lines cleanResponse
      in if list_all (\<lambda>line. js_includes line ''safe'') lines then [''safe'']
         else filter (\<lambda>line. \<not> js_includes line ''the message'' \<and>
                              \<not> js_includes line ''this content'') lines)"

datatype js_error = TypeError

text \<open>
  The body of the outer \<open>try\<close> of \<open>parseOllamaResponse\<close>. The argument is whatever the
  model's reply holds in \<open>content\<close>; on anything but a string \<open>response.replace\<close> is not a
  function and the call throws. A throw of \<open>JSON.parse\<close> is caught by the inner \<open>catch\<close>
  and the line-based parsing follows.
\<close>

definition parseOllamaResponse_body :: "(string \<Rightarrow> json option) \<Rightarrow> json \<Rightarrow> js_error + json" where
  "parseOllamaResponse_body parse response =
     (case response of
        JStr s \<Rightarrow>
          (let cleanResponse = clean_response s
           in case (if js_startsWith cleanResponse ''['' \<and> js_endsWith cleanResponse '']''
                    then parse cleanResponse else None) of
                Some v \<Rightarrow> Inr v
              | None \<Rightarrow> Inr (JArr (map JStr (line_based cleanResponse))))
      | _ \<Rightarrow> Inl TypeError)"

text \<open>The outer \<open>catch\<close> returns \<open>['error']\<close>.\<close>

definition parseOllamaResponse :: "(string \<Rightarrow> json option) \<Rightarrow> json \<Rightarrow> json" where
  "parseOllamaResponse parse response =
     (case parseOllamaResponse_body parse response of
        Inl e \<Rightarrow> JArr [JStr ''error'']
      | Inr v \<Rightarrow> v)"

text \<open>
  The cleaned text is returned by the JSON branch: it looks like an array and
  \<open>JSON.parse\<close> accepts it. Otherwise the line-based parsing is what runs.
\<close>

definition takes_json_branch :: "(string \<Rightarrow> json option) \<Rightarrow> string \<Rightarrow> bool" where
  "takes_json_branch parse cleanResponse =
     (js_startsWith cleanResponse ''['' \<and> js_endsWith cleanResponse '']'' \<and>
      parse cleanResponse \<noteq> None)"

text \<open>\<open>category.match(/^s\d+$/)\<close>\<close>

definition matches_s_digits :: "string \<Rightarrow> bool" where
  "matches_s_digits category =
     (case category of
        [] \<Rightarrow> False
      | c # ds \<Rightarrow> c = CHR ''s'' \<and> ds \<noteq> [] \<and> list_all js_isDigit ds)"

text \<open>
  The function mapped over the categories in \<open>moderateMessage\<close>, on a string. \<open>number\<close> is
  the text after the \<open>s\<close>; the comparisons read it as a number, the template literal
  \<open>`S${number}`\<close> writes the text itself.
\<close>

definition format_category :: "string \<Rightarrow> string" where
  "format_category category0 =
     (let category = js_trim (js_toLowerCase category0);
          number = drop 1 category
      in if matches_s_digits category \<and> digits_value number \<ge> 1 \<and> digits_value number \<le> 13
         then CHR ''S'' # number
         else if category = ''safe'' \<or> category = ''unsafe'' then js_toLowerCase category
         else category)"

text \<open>An element that is not a string has no \<open>toLowerCase\<close>: the map throws.\<close>

fun format_categories :: "json list \<Rightarrow> js_error + string list" where
  "format_categories [] = Inr []"
| "format_categories (JStr s # rest) =
     (case format_categories rest of Inl e \<Rightarrow> Inl e | Inr cs \<Rightarrow> Inr (format_category s # cs))"
| "format_categories (_ # rest) = Inl TypeError"

text \<open>\<open>String(n)\<close> for a natural number.\<close>

fun show_nat :: "nat \<Rightarrow> string" where
  "show_nat n =
     (if n < 10 then [''0123456789'' ! n]
      else show_nat (n div 10) @ [''0123456789'' ! (n mod 10)])"

text \<open>\<open>['unsafe', ...Array.from({ length: 13 }, (_, i) => `S${i + 1}`)]\<close>\<close>

definition unsafeCategories :: "string list" where
  "unsafeCategories = ''unsafe'' # map (\<lambda>i. CHR ''S'' # show_nat (i + 1)) [0..<13]"

text \<open>
  The \<open>moderation\<close> object \<open>moderateMessage\<close> passes to \<open>saveMessage\<close>, without its
  time stamp.
\<close>

record moderation =
  categories :: "string list"
  source :: string
  flagged :: bool

text \<open>
  \<open>moderateMessage\<close> from the reply of the guard model on: \<open>responseContent\<close> is the
  \<open>content\<close> of the reply. \<open>None\<close> is a run that saves no moderation: the content is
  falsy, the parsed categories are not an array, or the formatting throws and the
  function's own \<open>catch\<close> logs the error.
\<close>

definition moderateMessage :: "(string \<Rightarrow> json option) \<Rightarrow> json \<Rightarrow> moderation option" where
  "moderateMessage parse responseContent =
     (if \<not> truthy responseContent then None
      else case parseOllamaResponse parse responseContent of
        JArr cats \<Rightarrow>
          (case format_categories cats of
             Inl e \<Rightarrow> None
           | Inr cs \<Rightarrow>
               Some \<lparr>categories = cs, source = ''llama-guard3'',
                     flagged = list_ex (\<lambda>cat. cat \<in> set unsafeCategories) cs\<rparr>)
      | _ \<Rightarrow> None)"

subsection \<open>Rendering a category list as JSON text\<close>

text \<open>
  \<open>JSON.stringify\<close> on an array of strings, used to hand a category list back to the
  parser: the elements in double quotes, separated by commas, between brackets. Inside a
  string the quote, the backslash and the control characters are escaped.
\<close>

definition hex_digit :: "nat \<Rightarrow> char" where
  "hex_digit d = ''0123456789abcdef'' ! d"

definition json_escape :: "char \<Rightarrow> string" where
  "json_escape c =
     (case map_of [(CHR 0x22, [CHR 0x5C, CHR 0x22]), (CHR 0x5C, [CHR 0x5C, CHR 0x5C]),
                   (CHR 0x08, [CHR 0x5C, CHR ''b'']), (CHR 0x0C, [CHR 0x5C, CHR ''f'']),
                   (CHR 0x0A, [CHR 0x5C, CHR ''n'']), (CHR 0x0D, [CHR 0x5C, CHR ''r'']),
                   (CHR 0x09, [CHR 0x5C, CHR ''t''])] c of
        Some e \<Rightarrow> e
      | None \<Rightarrow>
          if (of_char c :: nat) < 32
          then [CHR 0x5C, CHR ''u'', CHR ''0'', CHR ''0'',
                hex_digit (of_char c div 16), hex_digit (of_char c mod 16)]
          else [c])"

definition json_quote :: "string \<Rightarrow> string" where
  "json_quote s = CHR 0x22 # concat (map json_escape s) @ [CHR 0x22]"

fun join_commas :: "string list \<Rightarrow> string" where
  "join_commas [] = []"
| "join_commas [x] = x"
| "join_commas (x # y # rest) = x @ CHR '','' # join_commas (y # rest)"

definition JSON_stringify :: "string list \<Rightarrow> string" where
  "JSON_stringify cs = CHR ''['' # join_commas (map json_quote cs) @ [CHR '']'']"

section \<open>Properties of the stream scan\<close>

subsection \<open>Lines and chunks\<close>

lemma QuizForm_line_event:
  "QuizForm_line parse st line =
     (case line_event parse line of None \<Rightarrow> st | Some parsed \<Rightarrow> QuizForm_event st parsed)"
  by (simp add: QuizForm_line_def line_event_def split: option.splits)

lemma LessonPlanForm_line_event:
  "LessonPlanForm_line parse st line =
     (case line_event parse line of None \<Rightarrow> st | Some parsed \<Rightarrow> LessonPlanForm_event st parsed)"
  by (simp add: LessonPlanForm_line_def line_event_def split: option.splits)

lemma AgentQuizForm_event_eq: "AgentQuizForm_event = LessonPlanForm_event"
  by (intro ext) (simp add: AgentQuizForm_event_def LessonPlanForm_event_def)

lemma AgentQuizForm_line_eq: "AgentQuizForm_line = LessonPlanForm_line"
  by (intro ext) (simp add: AgentQuizForm_line_def LessonPlanForm_line_def AgentQuizForm_event_eq
      split: option.splits)

lemma AgentQuizForm_scan_eq: "AgentQuizForm_scan = LessonPlanForm_scan"
  by (intro ext) (simp add: AgentQuizForm_scan_def LessonPlanForm_scan_def AgentQuizForm_line_eq)

lemma QuizForm_line_complete:
  "isComplete (QuizForm_line parse st line) = (isComplete st \<or> line_terminal parse line)"
  by (simp add: QuizForm_line_event line_terminal_def QuizForm_event_def Let_def
      split: option.splits)

lemma LessonPlanForm_line_complete:
  "isComplete (LessonPlanForm_line parse st line) = (isComplete st \<or> line_terminal parse line)"
  by (simp add: LessonPlanForm_line_event line_terminal_def LessonPlanForm_event_def Let_def
      split: option.splits)

lemma QuizForm_line_id:
  "conversationId (QuizForm_line parse st line) =
     (if truthy (conversationId st) then conversationId st
      else case line_truthy_id parse line of None \<Rightarrow> conversationId st | Some cid \<Rightarrow> cid)"
  by (simp add: QuizForm_line_event line_truthy_id_def QuizForm_event_def Let_def
      split: option.splits)

lemma foldl_complete:
  assumes "\<And>st line. isComplete (on_line st line) = (isComplete st \<or> terminal line)"
  shows "isComplete (foldl on_line st ls) = (isComplete st \<or> (\<exists>l\<in>set ls. terminal l))"
  using assms by (induction ls arbitrary: st) auto

lemma QuizForm_chunk_complete:
  "isComplete (scan_chunk (QuizForm_line parse) st chunk)
     = (isComplete st \<or> (\<exists>l\<in>set (js_split_nl chunk). line_terminal parse l))"
  unfolding scan_chunk_def by (rule foldl_complete) (rule QuizForm_line_complete)

lemma LessonPlanForm_chunk_complete:
  "isComplete (scan_chunk (LessonPlanForm_line parse) st chunk)
     = (isComplete st \<or> (\<exists>l\<in>set (js_split_nl chunk). line_terminal parse l))"
  unfolding scan_chunk_def by (rule foldl_complete) (rule LessonPlanForm_line_complete)

text \<open>The loop can only be left with \<open>isComplete\<close> set, and does nothing once it is set.\<close>

lemma read_loop_complete: "isComplete (read_loop on_line st chunks)"
  by (induction chunks arbitrary: st) auto

lemma read_loop_done: "isComplete st \<Longrightarrow> read_loop on_line st chunks = st"
  by (cases chunks) auto

lemma QuizForm_lines_keep:
  "truthy (conversationId st) \<Longrightarrow>
   conversationId (foldl (QuizForm_line parse) st ls) = conversationId st"
  by (induction ls arbitrary: st) (auto simp: QuizForm_line_id)

lemma QuizForm_lines_no_id:
  "\<forall>l\<in>set ls. line_truthy_id parse l = None \<Longrightarrow>
   conversationId (foldl (QuizForm_line parse) st ls) = conversationId st"
  by (induction ls arbitrary: st) (auto simp: QuizForm_line_id)

lemma QuizForm_loop_keep:
  "truthy (conversationId st) \<Longrightarrow>
   conversationId (read_loop (QuizForm_line parse) st chunks) = conversationId st"
  by (induction chunks arbitrary: st) (auto simp: scan_chunk_def QuizForm_lines_keep)

text \<open>
  Chunks without a terminal event and without an identifier are read through: the loop
  arrives at what follows them still running and with the identifier it had.
\<close>

lemma QuizForm_loop_reach:
  assumes "\<forall>c\<in>set before. \<forall>l\<in>set (js_split_nl c).
             line_truthy_id parse l = None \<and> \<not> line_terminal parse l"
    and "\<not> isComplete st"
  shows "\<exists>st'. read_loop (QuizForm_line parse) st (before @ rest)
                 = read_loop (QuizForm_line parse) st' rest
              \<and> \<not> isComplete st' \<and> conversationId st' = conversationId st"
  using assms
proof (induction before arbitrary: st)
  case Nil
  then show ?case by auto
next
  case (Cons c before)
  let ?st1 = "scan_chunk (QuizForm_line parse) st c"
  have a: "\<not> isComplete ?st1"
    using Cons.prems by (simp add: QuizForm_chunk_complete)
  have b: "conversationId ?st1 = conversationId st"
    using Cons.prems by (simp add: scan_chunk_def QuizForm_lines_no_id)
  from Cons.IH [of ?st1] Cons.prems a
  obtain st' where
    "read_loop (QuizForm_line parse) ?st1 (before @ rest) = read_loop (QuizForm_line parse) st' rest"
    "\<not> isComplete st'" "conversationId st' = conversationId ?st1"
    by auto
  with b Cons.prems(2) show ?case by auto
qed

lemma read_loop_stops:
  assumes "\<And>st. isComplete (scan_chunk on_line st chunk)"
  shows "read_loop on_line st (before @ chunk # after) = read_loop on_line st (before @ [chunk])"
proof (induction before arbitrary: st)
  case Nil
  show ?case using assms by (simp add: read_loop_done)
next
  case (Cons c before)
  then show ?case by simp
qed

subsection \<open>Splitting at newlines\<close>

lemma js_split_nl_nonempty: "js_split_nl s \<noteq> []"
  by (induction s) (auto split: list.splits)

lemma js_split_nl_append:
  "js_split_nl (a @ CHR 0x0A # b) = js_split_nl a @ js_split_nl b"
  by (induction a) (auto split: list.splits simp: js_split_nl_nonempty)

lemma js_split_nl_snoc: "js_split_nl (a @ [CHR 0x0A]) = js_split_nl a @ [[]]"
  using js_split_nl_append [of a "[]"] by simp

text \<open>
  When a chunk ends with a newline, splitting it and the next chunk one after the other
  gives the lines of the two together, but for one empty line, which no handler looks at.
\<close>

lemma scan_chunk_aligned:
  assumes empty_line: "\<And>st. on_line st [] = st"
    and aligned: "c = [] \<or> last c = CHR 0x0A"
  shows "scan_chunk on_line st (c @ d) = scan_chunk on_line (scan_chunk on_line st c) d"
proof (cases "c = []")
  case True
  then show ?thesis by (simp add: scan_chunk_def empty_line)
next
  case False
  with aligned obtain a where c: "c = a @ [CHR 0x0A]"
    by (metis append_butlast_last_id)
  show ?thesis
    unfolding c scan_chunk_def
    by (simp add: js_split_nl_append js_split_nl_snoc empty_line)
qed

lemma read_loop_concat:
  assumes empty_line: "\<And>st. on_line st [] = st"
    and complete: "\<And>st c. isComplete (scan_chunk on_line st c)
                     = (isComplete st \<or> (\<exists>l\<in>set (js_split_nl c). terminal l))"
    and chunks: "\<forall>c\<in>set (butlast chunks).
                   (c = [] \<or> last c = CHR 0x0A) \<and> (\<forall>l\<in>set (js_split_nl c). \<not> terminal l)"
  shows "read_loop on_line st chunks = read_loop on_line st [concat chunks]"
  using chunks
proof (induction chunks arbitrary: st)
  case Nil
  show ?case by (simp add: scan_chunk_def empty_line)
next
  case (Cons c chunks)
  show ?case
  proof (cases "chunks = []")
    case True
    then show ?thesis by simp
  next
    case False
    with Cons.prems have c: "c = [] \<or> last c = CHR 0x0A" "\<forall>l\<in>set (js_split_nl c). \<not> terminal l"
      and rest: "\<forall>c\<in>set (butlast chunks).
                   (c = [] \<or> last c = CHR 0x0A) \<and> (\<forall>l\<in>set (js_split_nl c). \<not> terminal l)"
      by auto
    show ?thesis
    proof (cases "isComplete st")
      case True
      then show ?thesis by simp
    next
      case running: False
      let ?st1 = "scan_chunk on_line st c"
      have running1: "\<not> isComplete ?st1"
        using running c(2) by (simp add: complete)
      have "read_loop on_line st (c # chunks) = read_loop on_line ?st1 chunks"
        using running by simp
      also have "\<dots> = read_loop on_line ?st1 [concat chunks]"
        using Cons.IH [OF rest] .
      also have "\<dots> = read_loop on_line st [concat (c # chunks)]"
      proof -
        have "scan_chunk on_line st (c @ concat chunks) = scan_chunk on_line ?st1 (concat chunks)"
          by (rule scan_chunk_aligned) (rule empty_line, rule c(1))
        then show ?thesis using running running1 by simp
      qed
      finally show ?thesis .
    qed
  qed
qed

subsection \<open>Chunk boundaries\<close>

text \<open>
  Claim C1 says that every split of a stream into chunks scans like the single chunk,
  because a partial last line would be carried over to the next chunk. The loops keep
  nothing between chunks and split each chunk on its own. Below, the line is cut inside
  its JSON text: the first part fails to parse, the second part has no prefix, and the
  identifier that the single chunk gives is lost.
\<close>

theorem split_line_lost:
  \<open>QuizForm_scan json_parse [''data: {"message":{"conver'', ''sationId":"abc"}}\<newline>'']
     = \<lparr>conversationId = JNull, isComplete = True\<rparr>
   \<and> QuizForm_scan json_parse [''data: {"message":{"conversationId":"abc"}}\<newline>'']
     = \<lparr>conversationId = JStr ''abc'', isComplete = True\<rparr>\<close>
  by code_simp

text \<open>
  A split at the end of a line changes the result as well when the first chunk holds a
  terminal event: the single chunk is scanned to its end, the second chunk is never read.
\<close>

lemma terminal_chunk_split_differs:
  \<open>QuizForm_scan json_parse
       [''data: {"done":true}\<newline>'', ''data: {"message":{"conversationId":"abc"}}\<newline>'']
     = \<lparr>conversationId = JNull, isComplete = True\<rparr>
   \<and> QuizForm_scan json_parse
       [''data: {"done":true}\<newline>data: {"message":{"conversationId":"abc"}}\<newline>'']
     = \<lparr>conversationId = JStr ''abc'', isComplete = True\<rparr>\<close>
  by code_simp

text \<open>
  Claim C1 as amended: when every chunk but the last is empty or ends with a newline and
  holds no terminal event, the chunks scan like their concatenation read as one chunk, in
  each of the three flows.
\<close>

theorem line_aligned_chunks_scan_alike:
  assumes "\<forall>c\<in>set (butlast chunks).
             (c = [] \<or> last c = CHR 0x0A) \<and> (\<forall>l\<in>set (js_split_nl c). \<not> line_terminal parse l)"
  shows "QuizForm_scan parse chunks = QuizForm_scan parse [concat chunks]
       \<and> LessonPlanForm_scan parse chunks = LessonPlanForm_scan parse [concat chunks]
       \<and> AgentQuizForm_scan parse chunks = AgentQuizForm_scan parse [concat chunks]"
proof (intro conjI)
  have e: "\<And>st. QuizForm_line parse st [] = st"
    by (simp add: QuizForm_line_def js_startsWith_def)
  show "QuizForm_scan parse chunks = QuizForm_scan parse [concat chunks]"
    unfolding QuizForm_scan_def
    by (rule read_loop_concat [OF e QuizForm_chunk_complete assms])
  have e': "\<And>st. LessonPlanForm_line parse st [] = st"
    by (simp add: LessonPlanForm_line_def js_startsWith_def)
  show l: "LessonPlanForm_scan parse chunks = LessonPlanForm_scan parse [concat chunks]"
    unfolding LessonPlanForm_scan_def
    by (rule read_loop_concat [OF e' LessonPlanForm_chunk_complete assms])
  then show "AgentQuizForm_scan parse chunks = AgentQuizForm_scan parse [concat chunks]"
    by (simp add: AgentQuizForm_scan_eq)
qed

theorem line_aligned_chunks_scan_alike_witness:
  \<open>QuizForm_scan json_parse
       [''data: {"message":{"conversationId":"abc"}}\<newline>'', ''data: {"final":true}\<newline>'']
     = QuizForm_scan json_parse
       [''data: {"message":{"conversationId":"abc"}}\<newline>data: {"final":true}\<newline>'']
   \<and> LessonPlanForm_scan json_parse
       [''data: {"message":{"conversationId":"abc"}}\<newline>'', ''data: {"final":true}\<newline>'']
     = LessonPlanForm_scan json_parse
       [''data: {"message":{"conversationId":"abc"}}\<newline>data: {"final":true}\<newline>'']
   \<and> AgentQuizForm_scan json_parse
       [''data: {"message":{"conversationId":"abc"}}\<newline>'', ''data: {"final":true}\<newline>'']
     = AgentQuizForm_scan json_parse
       [''data: {"message":{"conversationId":"abc"}}\<newline>data: {"final":true}\<newline>'']\<close>
proof -
  let ?chunks = \<open>[''data: {"message":{"conversationId":"abc"}}\<newline>'', ''data: {"final":true}\<newline>'']\<close>
  have h: "\<forall>c\<in>set (butlast ?chunks).
             (c = [] \<or> last c = CHR 0x0A)
             \<and> (\<forall>l\<in>set (js_split_nl c). \<not> line_terminal json_parse l)"
    by code_simp
  from line_aligned_chunks_scan_alike [OF h] show ?thesis by simp
qed

subsection \<open>The first identifier\<close>

text \<open>
  Claim C2: the first JSON event, in arrival order, that carries a truthy nested
  conversation identifier sets \<open>conversationId\<close>, and no later event overrides it. The
  events of a scan are the lines the loop reads: those of \<open>before\<close>, which hold no
  terminal event and no truthy identifier, then \<open>pre\<close> without a truthy identifier, then
  \<open>line\<close> with the identifier \<open>cid\<close>. Whatever follows, in the same chunk (\<open>post\<close>) or in
  later chunks (\<open>after\<close>), the scan of \<open>QuizForm\<close> ends with \<open>cid\<close>.
\<close>

theorem first_conversationId_wins:
  assumes earlier_chunks:
      "\<forall>c\<in>set before. \<forall>l\<in>set (js_split_nl c).
         line_truthy_id parse l = None \<and> \<not> line_terminal parse l"
    and chunk: "js_split_nl chunk = pre @ line # post"
    and earlier_lines: "\<forall>l\<in>set pre. line_truthy_id parse l = None"
    and carries: "line_truthy_id parse line = Some cid"
  shows "conversationId (QuizForm_scan parse (before @ chunk # after)) = cid"
proof -
  have init: "\<not> isComplete initial_state" "conversationId initial_state = JNull"
    by (simp_all add: initial_state_def)
  from QuizForm_loop_reach [OF earlier_chunks init(1), of "chunk # after"] init(2)
  obtain st' where st': "QuizForm_scan parse (before @ chunk # after)
        = read_loop (QuizForm_line parse) st' (chunk # after)"
      "\<not> isComplete st'" "conversationId st' = JNull"
    by (auto simp: QuizForm_scan_def)
  let ?st1 = "foldl (QuizForm_line parse) st' pre"
  have "conversationId ?st1 = JNull"
    using earlier_lines st'(3) by (simp add: QuizForm_lines_no_id)
  then have set_here: "conversationId (QuizForm_line parse ?st1 line) = cid"
    using carries by (simp add: QuizForm_line_id)
  have tr: "truthy cid"
    using carries by (auto simp: line_truthy_id_def split: option.splits if_splits)
  have "conversationId (scan_chunk (QuizForm_line parse) st' chunk) = cid"
    unfolding scan_chunk_def chunk using set_here tr
    by (simp add: QuizForm_lines_keep)
  then have "conversationId (read_loop (QuizForm_line parse) st' (chunk # after)) = cid"
    using st'(2) tr by (simp add: QuizForm_loop_keep)
  then show ?thesis using st'(1) by simp
qed

theorem first_conversationId_wins_witness:
  \<open>conversationId (QuizForm_scan json_parse
      ([''data: {"text":"hi"}\<newline>'']
       @ ''data: {"x":1}\<newline>data: {"message":{"conversationId":"abc"}}\<newline>data: {"message":{"conversationId":"xyz"}}''
       # [''data: {"message":{"conversationId":"uvw"}}\<newline>'']))
     = JStr ''abc''\<close>
proof -
  have h1: \<open>\<forall>c\<in>set [''data: {"text":"hi"}\<newline>'']. \<forall>l\<in>set (js_split_nl c).
         line_truthy_id json_parse l = None \<and> \<not> line_terminal json_parse l\<close>
    by code_simp
  have h2: \<open>js_split_nl ''data: {"x":1}\<newline>data: {"message":{"conversationId":"abc"}}\<newline>data: {"message":{"conversationId":"xyz"}}''
      = [''data: {"x":1}''] @ ''data: {"message":{"conversationId":"abc"}}''
          # [''data: {"message":{"conversationId":"xyz"}}'']\<close>
    by code_simp
  have h3: \<open>\<forall>l\<in>set [''data: {"x":1}'']. line_truthy_id json_parse l = None\<close>
    by code_simp
  have h4: \<open>line_truthy_id json_parse ''data: {"message":{"conversationId":"abc"}}''
      = Some (JStr ''abc'')\<close>
    by code_simp
  from first_conversationId_wins [OF h1 h2 h3 h4] show ?thesis .
qed

subsection \<open>The terminal event\<close>

text \<open>
  Claim C3 says that the events after a terminal event are never inspected. The inner
  loop over the lines of a chunk has no exit: a line after the terminal event, in the
  same chunk, is parsed and can still set the identifier.
\<close>

theorem later_event_inspected:
  \<open>QuizForm_scan json_parse
       [''data: {"final":true}\<newline>data: {"message":{"conversationId":"xyz"}}'']
     = \<lparr>conversationId = JStr ''xyz'', isComplete = True\<rparr>
   \<and> QuizForm_scan json_parse [''data: {"final":true}'']
     = \<lparr>conversationId = JNull, isComplete = True\<rparr>\<close>
  by code_simp

text \<open>
  Claim C3 as amended: a terminal event in a chunk that is read ends the scan after that
  chunk, so that no later chunk is read; every scan ends with \<open>isComplete\<close> set; and the
  three lines of the example give the identifier \<open>abc\<close>, delivered in one chunk or line
  by line.
\<close>

theorem terminal_event_stops_reading:
  \<open>(\<forall>parse before chunk after.
      (\<exists>l\<in>set (js_split_nl chunk). line_terminal parse l) \<longrightarrow>
        QuizForm_scan parse (before @ chunk # after) = QuizForm_scan parse (before @ [chunk]))
   \<and> (\<forall>parse chunks. isComplete (QuizForm_scan parse chunks))
   \<and> QuizForm_scan json_parse
        [''data: {"message":{"conversationId":"abc"}}\<newline>data: {"final":true}\<newline>data: {"message":{"conversationId":"xyz"}}'']
       = \<lparr>conversationId = JStr ''abc'', isComplete = True\<rparr>
   \<and> QuizForm_scan json_parse
        [''data: {"message":{"conversationId":"abc"}}\<newline>'', ''data: {"final":true}\<newline>'',
         ''data: {"message":{"conversationId":"xyz"}}'']
       = \<lparr>conversationId = JStr ''abc'', isComplete = True\<rparr>\<close>
proof (intro conjI allI impI)
  fix parse before chunk after
  assume "\<exists>l\<in>set (js_split_nl chunk). line_terminal parse l"
  then have "\<And>st. isComplete (scan_chunk (QuizForm_line parse) st chunk)"
    by (simp add: QuizForm_chunk_complete)
  then show "QuizForm_scan parse (before @ chunk # after) = QuizForm_scan parse (before @ [chunk])"
    unfolding QuizForm_scan_def by (rule read_loop_stops)
next
  fix parse chunks
  show "isComplete (QuizForm_scan parse chunks)"
    by (simp add: QuizForm_scan_def read_loop_complete)
next
  show \<open>QuizForm_scan json_parse
        [''data: {"message":{"conversationId":"abc"}}\<newline>data: {"final":true}\<newline>data: {"message":{"conversationId":"xyz"}}'']
       = \<lparr>conversationId = JStr ''abc'', isComplete = True\<rparr>\<close>
    by code_simp
next
  show \<open>QuizForm_scan json_parse
        [''data: {"message":{"conversationId":"abc"}}\<newline>'', ''data: {"final":true}\<newline>'',
         ''data: {"message":{"conversationId":"xyz"}}'']
       = \<lparr>conversationId = JStr ''abc'', isComplete = True\<rparr>\<close>
    by code_simp
qed

theorem terminal_event_stops_reading_witness:
  \<open>QuizForm_scan json_parse
      ([''data: {"message":{"conversationId":"abc"}}\<newline>'']
       @ ''data: {"done":true}\<newline>'' # [''data: {"message":{"conversationId":"xyz"}}''])
     = QuizForm_scan json_parse
      ([''data: {"message":{"conversationId":"abc"}}\<newline>''] @ [''data: {"done":true}\<newline>''])\<close>
proof -
  have h: \<open>\<exists>l\<in>set (js_split_nl ''data: {"done":true}\<newline>''). line_terminal json_parse l\<close>
    by code_simp
  from terminal_event_stops_reading [THEN conjunct1, rule_format, OF h]
  show ?thesis .
qed

subsection \<open>A malformed line\<close>

text \<open>
  Claim C8: a line that begins with \<open>data: \<close> and whose remainder fails to parse is
  skipped. The state after it is the state before it, and the lines of the chunk are
  scanned as if the line were not there: the scan goes on with the next line.
\<close>

theorem malformed_line_skipped:
  assumes "js_startsWith line ''data: ''" and "parse (drop 6 line) = None"
  shows "QuizForm_line parse st line = st
       \<and> foldl (QuizForm_line parse) st (before @ line # after)
         = foldl (QuizForm_line parse) st (before @ after)"
  using assms by (simp add: QuizForm_line_def)

theorem malformed_line_skipped_witness:
  \<open>QuizForm_line json_parse initial_state ''data: {oops'' = initial_state
   \<and> foldl (QuizForm_line json_parse) initial_state
       ([''data: {"message":{"conversationId":"abc"}}''] @ ''data: {oops'' # [''data: {"final":true}''])
     = foldl (QuizForm_line json_parse) initial_state
       ([''data: {"message":{"conversationId":"abc"}}''] @ [''data: {"final":true}''])\<close>
proof -
  have h1: "js_startsWith ''data: {oops'' ''data: ''"
    by (simp add: js_startsWith_def)
  have h2: "json_parse (drop 6 ''data: {oops'') = None"
    by code_simp
  from malformed_line_skipped [where parse = json_parse, OF h1 h2] show ?thesis .
qed

text \<open>The other two flows have the same \<open>try\<close> and \<open>catch\<close> around their line.\<close>

lemma malformed_line_skipped_other_flows:
  assumes "js_startsWith line ''data: ''" and "parse (drop 6 line) = None"
  shows "LessonPlanForm_line parse st line = st \<and> AgentQuizForm_line parse st line = st"
  using assms by (simp add: LessonPlanForm_line_def AgentQuizForm_line_def)

subsection \<open>The three flows\<close>

text \<open>
  Claim C5 says that the three loops compute the same result on every stream, also when
  an identifier is the empty string. \<open>QuizForm\<close> passes over an empty identifier and takes
  the next one; \<open>LessonPlanForm\<close> and \<open>AgentQuizForm\<close> store it, since it is not
  \<open>undefined\<close>, and keep it, since it is not \<open>null\<close>.
\<close>

theorem empty_identifier_splits_flows:
  \<open>QuizForm_scan json_parse
       [''data: {"message":{"conversationId":""}}\<newline>data: {"message":{"conversationId":"abc"}}\<newline>'']
     = \<lparr>conversationId = JStr ''abc'', isComplete = True\<rparr>
   \<and> LessonPlanForm_scan json_parse
       [''data: {"message":{"conversationId":""}}\<newline>data: {"message":{"conversationId":"abc"}}\<newline>'']
     = \<lparr>conversationId = JStr [], isComplete = True\<rparr>
   \<and> AgentQuizForm_scan json_parse
       [''data: {"message":{"conversationId":""}}\<newline>data: {"message":{"conversationId":"abc"}}\<newline>'']
     = \<lparr>conversationId = JStr [], isComplete = True\<rparr>\<close>
  by code_simp

text \<open>
  The two tests differ only on an identifier that is present and falsy. On a stream whose
  events carry truthy identifiers or none, the three loops compute the same result:
  the identifier in the state is then \<open>null\<close> or truthy, so that \<open>!conversationId\<close> and
  \<open>conversationId === null\<close> agree.
\<close>

lemma events_agree:
  assumes ids: "\<And>cid. nested_conversationId parsed = Some cid \<Longrightarrow> truthy cid"
    and inv: "conversationId st = JNull \<or> truthy (conversationId st)"
  shows "LessonPlanForm_event st parsed = QuizForm_event st parsed
       \<and> (conversationId (QuizForm_event st parsed) = JNull
            \<or> truthy (conversationId (QuizForm_event st parsed)))"
  using assms
  by (cases "nested_conversationId parsed")
     (auto simp: LessonPlanForm_event_def QuizForm_event_def Let_def)

lemma lines_agree:
  assumes ids: "\<forall>l\<in>set ls. \<forall>parsed cid. line_event parse l = Some parsed \<longrightarrow>
                  nested_conversationId parsed = Some cid \<longrightarrow> truthy cid"
    and inv: "conversationId st = JNull \<or> truthy (conversationId st)"
  shows "foldl (LessonPlanForm_line parse) st ls = foldl (QuizForm_line parse) st ls
       \<and> (conversationId (foldl (QuizForm_line parse) st ls) = JNull
            \<or> truthy (conversationId (foldl (QuizForm_line parse) st ls)))"
  using assms
proof (induction ls arbitrary: st)
  case Nil
  then show ?case by simp
next
  case (Cons l ls)
  have step: "LessonPlanForm_line parse st l = QuizForm_line parse st l
       \<and> (conversationId (QuizForm_line parse st l) = JNull
            \<or> truthy (conversationId (QuizForm_line parse st l)))"
  proof (cases "line_event parse l")
    case None
    then show ?thesis
      using Cons.prems(2) by (simp add: LessonPlanForm_line_event QuizForm_line_event)
  next
    case (Some parsed)
    with Cons.prems(1) have "\<And>cid. nested_conversationId parsed = Some cid \<Longrightarrow> truthy cid"
      by simp
    from events_agree [OF this Cons.prems(2)] Some show ?thesis
      by (simp add: LessonPlanForm_line_event QuizForm_line_event)
  qed
  from Cons.prems(1) have rest: "\<forall>l\<in>set ls. \<forall>parsed cid. line_event parse l = Some parsed \<longrightarrow>
                  nested_conversationId parsed = Some cid \<longrightarrow> truthy cid"
    by simp
  from Cons.IH [OF rest conjunct2 [OF step]] step show ?case by simp
qed

lemma loops_agree:
  assumes ids: "\<forall>c\<in>set chunks. \<forall>l\<in>set (js_split_nl c). \<forall>parsed cid.
                  line_event parse l = Some parsed \<longrightarrow>
                  nested_conversationId parsed = Some cid \<longrightarrow> truthy cid"
    and inv: "conversationId st = JNull \<or> truthy (conversationId st)"
  shows "read_loop (LessonPlanForm_line parse) st chunks = read_loop (QuizForm_line parse) st chunks"
  using assms
proof (induction chunks arbitrary: st)
  case Nil
  show ?case by simp
next
  case (Cons c chunks)
  from Cons.prems(1) have here: "\<forall>l\<in>set (js_split_nl c). \<forall>parsed cid.
                  line_event parse l = Some parsed \<longrightarrow>
                  nested_conversationId parsed = Some cid \<longrightarrow> truthy cid"
    and rest: "\<forall>c\<in>set chunks. \<forall>l\<in>set (js_split_nl c). \<forall>parsed cid.
                  line_event parse l = Some parsed \<longrightarrow>
                  nested_conversationId parsed = Some cid \<longrightarrow> truthy cid"
    by simp_all
  from lines_agree [OF here Cons.prems(2)]
  have eq: "scan_chunk (LessonPlanForm_line parse) st c = scan_chunk (QuizForm_line parse) st c"
    and inv': "conversationId (scan_chunk (QuizForm_line parse) st c) = JNull
            \<or> truthy (conversationId (scan_chunk (QuizForm_line parse) st c))"
    by (simp_all add: scan_chunk_def)
  from Cons.IH [OF rest inv'] eq show ?case by simp
qed

lemma flows_agree_on_truthy_identifiers:
  assumes "\<forall>c\<in>set chunks. \<forall>l\<in>set (js_split_nl c). \<forall>parsed cid.
             line_event parse l = Some parsed \<longrightarrow>
             nested_conversationId parsed = Some cid \<longrightarrow> truthy cid"
  shows "LessonPlanForm_scan parse chunks = QuizForm_scan parse chunks
       \<and> AgentQuizForm_scan parse chunks = QuizForm_scan parse chunks"
  using loops_agree [OF assms, of initial_state]
  by (simp add: AgentQuizForm_scan_eq LessonPlanForm_scan_def QuizForm_scan_def initial_state_def)

section \<open>Properties of the moderation category parser\<close>

subsection \<open>The unsafe categories\<close>

lemma unsafeCategories_eq:
  "unsafeCategories = [''unsafe'', ''S1'', ''S2'', ''S3'', ''S4'', ''S5'', ''S6'', ''S7'',
                        ''S8'', ''S9'', ''S10'', ''S11'', ''S12'', ''S13'']"
  by code_simp

text \<open>
  Claim C7: for every moderation that is saved, \<open>flagged\<close> holds exactly when the
  categories meet \<open>unsafe\<close>, \<open>S1\<close>, ..., \<open>S13\<close>; the reply \<open>["hate","violence"]\<close> is
  saved with these two categories and \<open>flagged = false\<close>.
\<close>

theorem flagged_iff_unsafe:
  \<open>(\<forall>parse content m. moderateMessage parse content = Some m \<longrightarrow>
      (flagged m \<longleftrightarrow>
         set (categories m) \<inter> {''unsafe'', ''S1'', ''S2'', ''S3'', ''S4'', ''S5'', ''S6'', ''S7'',
                                 ''S8'', ''S9'', ''S10'', ''S11'', ''S12'', ''S13''} \<noteq> {}))
   \<and> moderateMessage json_parse (JStr ''["hate","violence"]'')
       = Some \<lparr>categories = [''hate'', ''violence''], source = ''llama-guard3'', flagged = False\<rparr>\<close>
proof (intro conjI allI impI)
  fix parse content m
  assume "moderateMessage parse content = Some m"
  then obtain cs where m: "m = \<lparr>categories = cs, source = ''llama-guard3'',
                     flagged = list_ex (\<lambda>cat. cat \<in> set unsafeCategories) cs\<rparr>"
    by (auto simp: moderateMessage_def split: if_splits json.splits sum.splits)
  show "flagged m \<longleftrightarrow>
         set (categories m) \<inter> {''unsafe'', ''S1'', ''S2'', ''S3'', ''S4'', ''S5'', ''S6'', ''S7'',
                                 ''S8'', ''S9'', ''S10'', ''S11'', ''S12'', ''S13''} \<noteq> {}"
    unfolding m unsafeCategories_eq list_ex_iff by auto
next
  show \<open>moderateMessage json_parse (JStr ''["hate","violence"]'')
       = Some \<lparr>categories = [''hate'', ''violence''], source = ''llama-guard3'', flagged = False\<rparr>\<close>
    by code_simp
qed

theorem flagged_iff_unsafe_witness:
  \<open>moderateMessage json_parse (JStr ''S1\<newline>S5'')
     = Some \<lparr>categories = [''S1'', ''S5''], source = ''llama-guard3'', flagged = True\<rparr>
   \<and> set [''S1'', ''S5''] \<inter> {''unsafe'', ''S1'', ''S2'', ''S3'', ''S4'', ''S5'', ''S6'', ''S7'',
                                 ''S8'', ''S9'', ''S10'', ''S11'', ''S12'', ''S13''} \<noteq> {}\<close>
proof -
  have h: \<open>moderateMessage json_parse (JStr ''S1\<newline>S5'')
     = Some \<lparr>categories = [''S1'', ''S5''], source = ''llama-guard3'', flagged = True\<rparr>\<close>
    by code_simp
  from flagged_iff_unsafe [THEN conjunct1, rule_format, OF h]
  have "set [''S1'', ''S5''] \<inter> {''unsafe'', ''S1'', ''S2'', ''S3'', ''S4'', ''S5'', ''S6'', ''S7'',
                                 ''S8'', ''S9'', ''S10'', ''S11'', ''S12'', ''S13''} \<noteq> {}"
    by simp
  with h show ?thesis by simp
qed

subsection \<open>Formatting a category\<close>

text \<open>
  Claim C6 says that \<open>s\<close> followed by digits worth 1 to 13 is rewritten without a leading
  zero, \<open>s05\<close> to \<open>S5\<close>. The range test reads the digits as a number, the result is built
  from their text: \<open>s05\<close> becomes \<open>S05\<close>, which is none of the unsafe categories, so
  that the message is not flagged, while \<open>s5\<close> becomes \<open>S5\<close> and is.
\<close>

theorem leading_zero_kept:
  \<open>format_category ''s05'' = ''S05''
   \<and> moderateMessage json_parse (JStr ''["s05"]'')
       = Some \<lparr>categories = [''S05''], source = ''llama-guard3'', flagged = False\<rparr>
   \<and> moderateMessage json_parse (JStr ''["s5"]'')
       = Some \<lparr>categories = [''S5''], source = ''llama-guard3'', flagged = True\<rparr>\<close>
  by code_simp

text \<open>
  Without a leading zero the thirteen codes are rewritten as claim C6 says, in any case
  and with white space around them; codes out of range, other text, \<open>safe\<close> and
  \<open>unsafe\<close> are kept trimmed and in lower case.
\<close>

lemma format_category_codes:
  "map format_category [''s1'', ''S2'', '' s3'', ''s4 '', ''s5'', ''s6'', ''s7'', ''s8'', ''s9'',
                        ''s10'', ''s11'', ''s12'', ''S13'']
     = [''S1'', ''S2'', ''S3'', ''S4'', ''S5'', ''S6'', ''S7'', ''S8'', ''S9'',
        ''S10'', ''S11'', ''S12'', ''S13'']"
  by code_simp

lemma format_category_others:
  "map format_category [''s0'', ''S14'', ''s1x'', '' Hate Speech '', ''SAFE'', '' Unsafe'']
     = [''s0'', ''s14'', ''s1x'', ''hate speech'', ''safe'', ''unsafe'']"
  by code_simp

subsection \<open>Trimming and lower case\<close>

lemmas lower_char_defs =
  js_lower_char_def upper_letters_def lower_letters_def upper_latin1_def lower_latin1_def

text \<open>The no-break space is trimmed, and a capital letter above \<open>U+007F\<close> is lowered.\<close>

lemma latin1_examples:
  "js_trim [CHR 0xA0, CHR ''a'', CHR 0x20, CHR 0xA0] = ''a''
   \<and> js_toLowerCase [CHR 0xC9, CHR ''T'', CHR 0xD7, CHR 0xDE, CHR 0xDF] =
       [CHR 0xE9, CHR ''t'', CHR 0xD7, CHR 0xFE, CHR 0xDF]"
  by code_simp

lemma ws_lower [simp]: "js_isWhiteSpace (js_lower_char c) = js_isWhiteSpace c"
  by (auto simp: js_isWhiteSpace_def lower_char_defs split: option.splits if_splits)

lemma lower_lower [simp]: "js_lower_char (js_lower_char c) = js_lower_char c"
  by (auto simp: lower_char_defs split: option.splits if_splits)

lemma toLowerCase_idem [simp]: "js_toLowerCase (js_toLowerCase s) = js_toLowerCase s"
  by (simp add: js_toLowerCase_def)

lemma toLowerCase_trim: "js_toLowerCase (js_trim s) = js_trim (js_toLowerCase s)"
  by (simp add: js_toLowerCase_def js_trim_def rev_map dropWhile_map comp_def)

lemma trim_fixed:
  assumes "s = [] \<or> (\<not> js_isWhiteSpace (hd s) \<and> \<not> js_isWhiteSpace (last s))"
  shows "js_trim s = s"
proof (cases "s = []")
  case True
  then show ?thesis by (simp add: js_trim_def)
next
  case False
  with assms have h: "\<not> js_isWhiteSpace (hd s)" and l: "\<not> js_isWhiteSpace (last s)" by auto
  from h False have 1: "dropWhile js_isWhiteSpace s = s" by (cases s) auto
  from l False have 2: "dropWhile js_isWhiteSpace (rev s) = rev s"
    by (cases s rule: rev_cases) auto
  show ?thesis by (simp add: js_trim_def 1 2)
qed

lemma trim_ends:
  "js_trim s = [] \<or> (\<not> js_isWhiteSpace (hd (js_trim s)) \<and> \<not> js_isWhiteSpace (last (js_trim s)))"
proof -
  let ?y = "dropWhile js_isWhiteSpace s"
  let ?z = "dropWhile js_isWhiteSpace (rev ?y)"
  have t: "js_trim s = rev ?z" by (simp add: js_trim_def)
  show ?thesis
  proof (cases "?z = []")
    case True
    then show ?thesis by (simp add: t)
  next
    case False
    then have hz: "\<not> js_isWhiteSpace (hd ?z)" by (rule hd_dropWhile)
    from False have y: "?y \<noteq> []" by (intro notI) simp
    then have hy: "\<not> js_isWhiteSpace (hd ?y)" by (rule hd_dropWhile)
    have "last ?z = last (rev ?y)"
      using False by (metis last_appendR takeWhile_dropWhile_id)
    also have "\<dots> = hd ?y" using y by (simp add: last_rev)
    finally have lz: "\<not> js_isWhiteSpace (last ?z)" using hy by simp
    show ?thesis unfolding t using False hz lz by (simp add: hd_rev last_rev)
  qed
qed

lemma trim_idem [simp]: "js_trim (js_trim s) = js_trim s"
  by (rule trim_fixed) (rule trim_ends)

subsection \<open>Formatting twice\<close>

lemma digit_not_ws: "js_isDigit c \<Longrightarrow> \<not> js_isWhiteSpace c"
  by (auto simp: js_isDigit_def digit_val_def js_isWhiteSpace_def split: if_splits)

lemma digit_lower: "js_isDigit c \<Longrightarrow> js_lower_char c = c"
  by (auto simp: js_isDigit_def digit_val_def lower_char_defs split: if_splits)

lemma s_digits_canonical:
  assumes "matches_s_digits t"
  shows "js_trim (js_toLowerCase (CHR ''S'' # drop 1 t)) = t"
proof -
  from assms obtain ds where t: "t = CHR ''s'' # ds" and ds: "ds \<noteq> []" "list_all js_isDigit ds"
    by (auto simp: matches_s_digits_def split: list.splits)
  have "map js_lower_char ds = ds"
    using ds(2) by (intro map_idI) (simp add: digit_lower list_all_iff)
  then have low: "js_toLowerCase (CHR ''S'' # ds) = CHR ''s'' # ds"
    by (simp add: js_toLowerCase_def lower_char_defs)
  have "\<not> js_isWhiteSpace (last ds)"
    using ds by (simp add: list_all_iff digit_not_ws)
  then have "js_trim (CHR ''s'' # ds) = CHR ''s'' # ds"
    using ds(1) by (intro trim_fixed) (simp add: js_isWhiteSpace_def)
  with low show ?thesis by (simp add: t)
qed

lemma format_category_of_trimmed:
  assumes "js_trim (js_toLowerCase x) = t"
  shows "format_category x =
     (if matches_s_digits t \<and> digits_value (drop 1 t) \<ge> 1 \<and> digits_value (drop 1 t) \<le> 13
      then CHR ''S'' # drop 1 t else t)"
proof -
  have "js_toLowerCase ''safe'' = ''safe''" "js_toLowerCase ''unsafe'' = ''unsafe''"
    by (simp_all add: js_toLowerCase_def lower_char_defs)
  then show ?thesis
    unfolding format_category_def Let_def assms by auto
qed

text \<open>A formatted category is formatted to itself.\<close>

lemma format_category_idem: "format_category (format_category c) = format_category c"
proof -
  define t where "t = js_trim (js_toLowerCase c)"
  define ok where
    "ok \<longleftrightarrow> matches_s_digits t \<and> digits_value (drop 1 t) \<ge> 1 \<and> digits_value (drop 1 t) \<le> 13"
  have f: "format_category c = (if ok then CHR ''S'' # drop 1 t else t)"
    unfolding ok_def by (rule format_category_of_trimmed) (simp add: t_def)
  have "js_trim (js_toLowerCase (format_category c)) = t"
  proof (cases ok)
    case True
    then have "matches_s_digits t" by (simp add: ok_def)
    then have "js_trim (js_toLowerCase (CHR ''S'' # drop 1 t)) = t"
      by (rule s_digits_canonical)
    with True f show ?thesis by simp
  next
    case False
    with f have "format_category c = t" by simp
    then show ?thesis by (simp add: t_def toLowerCase_trim)
  qed
  from format_category_of_trimmed [OF this] f show ?thesis by (simp add: ok_def)
qed

lemma format_categories_strings:
  "format_categories (map JStr cs) = Inr (map format_category cs)"
  by (induction cs) auto

lemma format_categories_image:
  "format_categories cats = Inr cs \<Longrightarrow> \<exists>xs. cs = map format_category xs"
proof (induction cats arbitrary: cs rule: format_categories.induct)
  case 1
  then show ?case by simp
next
  case (2 s rest)
  then obtain cs' where r: "format_categories rest = Inr cs'" and cs: "cs = format_category s # cs'"
    by (auto split: sum.splits)
  from "2.IH" [OF r] obtain xs where "cs' = map format_category xs" ..
  with cs have "cs = map format_category (s # xs)" by simp
  then show ?case ..
qed simp_all

subsection \<open>The error fallback\<close>

lemma body_of_string:
  "parseOllamaResponse_body parse (JStr reply) =
     (if takes_json_branch parse (clean_response reply)
      then Inr (the (parse (clean_response reply)))
      else Inr (JArr (map JStr (line_based (clean_response reply)))))"
  by (auto simp: parseOllamaResponse_body_def takes_json_branch_def Let_def split: option.splits)

text \<open>
  Claim C4 says that unparseable garbage gives the categories \<open>["error"]\<close>. Text that is
  not a JSON array is parsed line by line, and a line of garbage is kept as a category.
\<close>

theorem garbage_kept_as_category:
  \<open>parseOllamaResponse json_parse (JStr ''@@ not json @@'') = JArr [JStr ''@@ not json @@'']
   \<and> moderateMessage json_parse (JStr ''@@ not json @@'')
       = Some \<lparr>categories = [''@@ not json @@''], source = ''llama-guard3'', flagged = False\<rparr>\<close>
  by code_simp

text \<open>
  Claim C4 as amended: on a string nothing is thrown inside the parser, so that the outer
  \<open>catch\<close> is not entered and no exception escapes; \<open>["error"]\<close> is what the parser returns
  for a reply that is not a string; and a string that does not take the JSON branch,
  garbage included, is returned as the categories of the line-based parsing.
\<close>

theorem error_only_for_non_strings:
  "(\<forall>parse reply. parseOllamaResponse_body parse (JStr reply) \<noteq> Inl TypeError)
   \<and> (\<forall>parse response. (\<forall>reply. response \<noteq> JStr reply) \<longrightarrow>
         parseOllamaResponse parse response = JArr [JStr ''error''])
   \<and> (\<forall>parse reply. \<not> takes_json_branch parse (clean_response reply) \<longrightarrow>
         parseOllamaResponse parse (JStr reply)
           = JArr (map JStr (line_based (clean_response reply))))"
proof (intro conjI allI impI)
  fix parse reply
  show "parseOllamaResponse_body parse (JStr reply) \<noteq> Inl TypeError"
    by (simp add: body_of_string)
next
  fix parse response
  assume "\<forall>reply. response \<noteq> JStr reply"
  then show "parseOllamaResponse parse response = JArr [JStr ''error'']"
    by (cases response) (simp_all add: parseOllamaResponse_def parseOllamaResponse_body_def)
next
  fix parse reply
  assume "\<not> takes_json_branch parse (clean_response reply)"
  then show "parseOllamaResponse parse (JStr reply)
           = JArr (map JStr (line_based (clean_response reply)))"
    by (simp add: parseOllamaResponse_def body_of_string)
qed

theorem error_only_for_non_strings_witness:
  \<open>parseOllamaResponse json_parse (JNum 5) = JArr [JStr ''error'']
   \<and> parseOllamaResponse json_parse (JStr ''@@ not json @@'')
       = JArr (map JStr (line_based (clean_response ''@@ not json @@'')))\<close>
proof -
  have h1: "JNum 5 \<noteq> JStr reply" for reply by simp
  have h2: "\<not> takes_json_branch json_parse (clean_response ''@@ not json @@'')" by code_simp
  from error_only_for_non_strings [THEN conjunct2, THEN conjunct1, rule_format, OF h1]
    error_only_for_non_strings [THEN conjunct2, THEN conjunct2, rule_format, OF h2]
  show ?thesis by simp
qed

subsection \<open>Nothing but narrative\<close>

text \<open>
  Claim C10 says that every reply whose lines are all empty or narrative gives
  \<open>["safe"]\<close>. A reply that parses as a JSON array is returned by the JSON branch before
  any line is filtered: the one line of \<open>["analysis:"]\<close> contains \<open>analysis:\<close>, and the
  reply is saved with the category \<open>analysis:\<close>.
\<close>

theorem json_array_not_filtered:
  \<open>js_split_nl (clean_response ''["analysis:"]'') = [''["analysis:"]'']
   \<and> js_includes (js_toLowerCase (js_trim ''["analysis:"]'')) ''analysis:''
   \<and> parseOllamaResponse json_parse (JStr ''["analysis:"]'') = JArr [JStr ''analysis:'']
   \<and> moderateMessage json_parse (JStr ''["analysis:"]'')
       = Some \<lparr>categories = [''analysis:''], source = ''llama-guard3'', flagged = False\<rparr>\<close>
  by code_simp

text \<open>
  Claim C10 as amended: when every line of the cleaned text, trimmed and in lower case,
  is empty or contains \<open>no harmful content\<close>, \<open>analysis:\<close> or \<open>categories:\<close>, the filters
  leave no line, the test that every line contains \<open>safe\<close> holds of the empty list and
  the line-based parsing gives \<open>["safe"]\<close>, not the empty list; and when the cleaned text
  does not take the JSON branch, that is what the parser returns, saved for a reply that
  is not empty with \<open>flagged = false\<close>.
\<close>

theorem all_noise_gives_safe:
  assumes noise: "\<forall>line\<in>set (map (\<lambda>line. js_toLowerCase (js_trim line))
                               (js_split_nl (clean_response reply))).
                    line = [] \<or> js_includes line ''no harmful content''
                    \<or> js_includes line ''analysis:'' \<or> js_includes line ''categories:''"
  shows "fallback_lines (clean_response reply) = []
       \<and> line_based (clean_response reply) = [''safe'']
       \<and> (\<not> takes_json_branch parse (clean_response reply) \<longrightarrow>
            parseOllamaResponse parse (JStr reply) = JArr [JStr ''safe'']
            \<and> (reply \<noteq> [] \<longrightarrow> moderateMessage parse (JStr reply)
                 = Some \<lparr>categories = [''safe''], source = ''llama-guard3'', flagged = False\<rparr>))"
proof (intro conjI impI)
  show none: "fallback_lines (clean_response reply) = []"
    unfolding fallback_lines_def filter_empty_conv using noise
    by (auto simp: kept_line_def)
  then show safe: "line_based (clean_response reply) = [''safe'']"
    by (simp add: line_based_def)
  assume "\<not> takes_json_branch parse (clean_response reply)"
  with safe show p: "parseOllamaResponse parse (JStr reply) = JArr [JStr ''safe'']"
    by (simp add: parseOllamaResponse_def body_of_string)
  assume "reply \<noteq> []"
  moreover have "format_category ''safe'' = ''safe''" by code_simp
  moreover have "''safe'' \<notin> set unsafeCategories" by (simp add: unsafeCategories_eq)
  ultimately show "moderateMessage parse (JStr reply)
      = Some \<lparr>categories = [''safe''], source = ''llama-guard3'', flagged = False\<rparr>"
    using p by (simp add: moderateMessage_def)
qed

theorem all_noise_gives_safe_witness:
  \<open>line_based (clean_response (''Analysis: fine'' @ [CHR 0x0A, CHR 0xA0, CHR 0x0A] @ ''  Categories: none'')) = [''safe'']
   \<and> moderateMessage json_parse (JStr (''Analysis: fine'' @ [CHR 0x0A, CHR 0xA0, CHR 0x0A] @ ''  Categories: none''))
     = Some \<lparr>categories = [''safe''], source = ''llama-guard3'', flagged = False\<rparr>\<close>
proof -
  let ?t = "''Analysis: fine'' @ [CHR 0x0A, CHR 0xA0, CHR 0x0A] @ ''  Categories: none''"
  have h1: "\<forall>line\<in>set (map (\<lambda>line. js_toLowerCase (js_trim line))
                               (js_split_nl (clean_response ?t))).
                    line = [] \<or> js_includes line ''no harmful content''
                    \<or> js_includes line ''analysis:'' \<or> js_includes line ''categories:''"
    by code_simp
  have h2: "\<not> takes_json_branch json_parse (clean_response ?t)" by code_simp
  from all_noise_gives_safe [OF h1, of json_parse] h2 show ?thesis by simp
qed

subsection \<open>Parsing the parser's own output\<close>

lemma hex_digit_not_nl: "d < 16 \<Longrightarrow> hex_digit d \<noteq> CHR 0x0A"
proof -
  assume "d < 16"
  then have "hex_digit d \<in> set ''0123456789abcdef''"
    unfolding hex_digit_def by (intro nth_mem) simp
  then show ?thesis by auto
qed

lemma escape_no_nl: "CHR 0x0A \<notin> set (json_escape c)"
proof (cases "(of_char c :: nat) < 32")
  case True
  then have "(of_char c :: nat) div 16 < 16" "(of_char c :: nat) mod 16 < 16" by simp_all
  then have "hex_digit (of_char c div 16) \<noteq> CHR 0x0A" "hex_digit (of_char c mod 16) \<noteq> CHR 0x0A"
    by (simp_all add: hex_digit_not_nl)
  then show ?thesis
    by (auto simp: json_escape_def split: if_splits)
next
  case False
  then show ?thesis
    by (auto simp: json_escape_def split: if_splits)
qed

lemma quote_no_nl: "CHR 0x0A \<notin> set (json_quote s)"
  by (auto simp: json_quote_def escape_no_nl)

lemma join_no_nl: "\<forall>x\<in>set xs. CHR 0x0A \<notin> set x \<Longrightarrow> CHR 0x0A \<notin> set (join_commas xs)"
  by (induction xs rule: join_commas.induct) auto

lemma stringify_no_nl: "CHR 0x0A \<notin> set (JSON_stringify cs)"
  by (simp add: JSON_stringify_def join_no_nl quote_no_nl)

lemma startsWith_set: "js_startsWith s p \<Longrightarrow> set p \<subseteq> set s"
  unfolding js_startsWith_def by (metis set_take_subset)

text \<open>Both fences need a newline: text without one is left as it is.\<close>

lemma strip_fences_none: "CHR 0x0A \<notin> set s \<Longrightarrow> strip_fences s = s"
proof (induction s rule: strip_fences.induct)
  case 1
  then show ?case by simp
next
  case (2 c cs)
  have a: "\<not> js_startsWith (c # cs) ''```json\<newline>''"
    using "2.prems" startsWith_set by fastforce
  have b: "\<not> js_startsWith (c # cs) ''\<newline>```''"
    using "2.prems" startsWith_set by fastforce
  from 2 a b show ?case by simp
qed

lemma clean_stringify: "clean_response (JSON_stringify cs) = JSON_stringify cs"
proof -
  have "js_trim (JSON_stringify cs) = JSON_stringify cs"
    by (rule trim_fixed) (simp add: JSON_stringify_def js_isWhiteSpace_def)
  then show ?thesis by (simp add: clean_response_def strip_fences_none stringify_no_nl)
qed

lemma stringify_brackets:
  "js_startsWith (JSON_stringify cs) ''['' \<and> js_endsWith (JSON_stringify cs) '']''"
  by (simp add: JSON_stringify_def js_startsWith_def js_endsWith_def)

text \<open>The reference reader reads a rendered list back: first the strings, then the array.\<close>

lemma hex_val_digit: "d < 16 \<Longrightarrow> hex_val (hex_digit d) = Some d"
proof -
  have "\<forall>d\<in>set [0..<16]. hex_val (hex_digit d) = Some d"
    by code_simp
  then show "d < 16 \<Longrightarrow> hex_val (hex_digit d) = Some d" by simp
qed

lemma lex_escaped_char:
  "json_lex (LStr s) acc (json_escape c @ follow) = json_lex (LStr (c # s)) acc follow"
proof (cases "map_of [(CHR 0x22, [CHR 0x5C, CHR 0x22]), (CHR 0x5C, [CHR 0x5C, CHR 0x5C]),
                   (CHR 0x08, [CHR 0x5C, CHR ''b'']), (CHR 0x0C, [CHR 0x5C, CHR ''f'']),
                   (CHR 0x0A, [CHR 0x5C, CHR ''n'']), (CHR 0x0D, [CHR 0x5C, CHR ''r'']),
                   (CHR 0x09, [CHR 0x5C, CHR ''t''])] c")
  case (Some e)
  then show ?thesis
    by (auto simp: json_escape_def escape_char_def split: if_splits)
next
  case None
  then have ne: "c \<noteq> CHR 0x22" "c \<noteq> CHR 0x5C"
    by (auto split: if_splits)
  show ?thesis
  proof (cases "(of_char c :: nat) < 32")
    case True
    let ?n = "of_char c :: nat"
    have d: "?n div 16 < 16" "?n mod 16 < 16" using True by simp_all
    have v: "16 * (?n div 16) + ?n mod 16 = ?n" by simp
    have e: "json_escape c = [CHR 0x5C, CHR ''u'', CHR ''0'', CHR ''0'',
                hex_digit (?n div 16), hex_digit (?n mod 16)]"
      using None True by (simp add: json_escape_def)
    have z: "hex_val CHR ''0'' = Some 0" by (simp add: hex_val_def)
    show ?thesis
      unfolding e using True
      by (simp add: ne z hex_val_digit [OF d(1)] hex_val_digit [OF d(2)] v)
  next
    case False
    with None ne show ?thesis by (simp add: json_escape_def)
  qed
qed

lemma lex_string_body:
  "json_lex (LStr s) acc (concat (map json_escape x) @ CHR 0x22 # follow)
     = json_lex LTop (TStr (rev s @ x) # acc) follow"
proof (induction x arbitrary: s)
  case Nil
  show ?case by simp
next
  case (Cons c x)
  have "json_lex (LStr s) acc (concat (map json_escape (c # x)) @ CHR 0x22 # follow)
      = json_lex (LStr s) acc (json_escape c @ (concat (map json_escape x) @ CHR 0x22 # follow))"
    by simp
  also have "\<dots> = json_lex (LStr (c # s)) acc (concat (map json_escape x) @ CHR 0x22 # follow)"
    by (rule lex_escaped_char)
  also have "\<dots> = json_lex LTop (TStr (rev (c # s) @ x) # acc) follow"
    by (rule Cons.IH)
  finally show ?case by simp
qed

lemma lex_quoted:
  "json_lex LTop acc (json_quote x @ follow) = json_lex LTop (TStr x # acc) follow"
  using lex_string_body [of "[]" acc x follow]
  by (simp add: json_quote_def json_ws_def punct_def)

lemma lex_elements:
  "json_lex LTop acc (join_commas (map json_quote (c # cs)) @ [CHR '']''])
     = Some (rev acc @ TStr c # concat (map (\<lambda>x. [TComma, TStr x]) cs) @ [TRBrack])"
proof (induction cs arbitrary: c acc)
  case Nil
  show ?case by (simp add: lex_quoted json_ws_def punct_def)
next
  case (Cons c' cs)
  have "json_lex LTop acc (join_commas (map json_quote (c # c' # cs)) @ [CHR '']''])
      = json_lex LTop acc
          (json_quote c @ (CHR '','' # join_commas (map json_quote (c' # cs)) @ [CHR '']'']))"
    by simp
  also have "\<dots> = json_lex LTop (TStr c # acc)
                     (CHR '','' # join_commas (map json_quote (c' # cs)) @ [CHR '']''])"
    by (rule lex_quoted)
  also have "\<dots> = json_lex LTop (TComma # TStr c # acc)
                     (join_commas (map json_quote (c' # cs)) @ [CHR '']''])"
    by (simp add: json_ws_def punct_def)
  also have "\<dots> = Some (rev (TComma # TStr c # acc)
                     @ TStr c' # concat (map (\<lambda>x. [TComma, TStr x]) cs) @ [TRBrack])"
    by (rule Cons.IH)
  finally show ?case by simp
qed

lemma prun_elements:
  "prun PAfter [FArr vs] (concat (map (\<lambda>x. [TComma, TStr x]) cs) @ [TRBrack])
     = Some (JArr (rev vs @ map JStr cs))"
  by (induction cs arbitrary: vs) simp_all

lemma json_parse_stringify:
  "json_parse (JSON_stringify cs) = Some (JArr (map JStr cs))"
proof (cases cs)
  case Nil
  then show ?thesis
    by (simp add: json_parse_def JSON_stringify_def json_ws_def punct_def)
next
  case (Cons c rest)
  have "json_lex LTop [] (JSON_stringify cs)
      = json_lex LTop [TLBrack] (join_commas (map json_quote (c # rest)) @ [CHR '']''])"
    by (simp add: JSON_stringify_def Cons json_ws_def punct_def)
  also have "\<dots> = Some (TLBrack # TStr c # concat (map (\<lambda>x. [TComma, TStr x]) rest) @ [TRBrack])"
    using lex_elements [of "[TLBrack]" c rest] by simp
  finally have l: "json_lex LTop [] (JSON_stringify cs)
      = Some (TLBrack # TStr c # concat (map (\<lambda>x. [TComma, TStr x]) rest) @ [TRBrack])" .
  show ?thesis
    unfolding json_parse_def l by (simp add: prun_elements Cons)
qed

text \<open>
  The categories of a saved moderation, rendered and given to \<open>moderateMessage\<close> again,
  for a parser that reads the rendering back.
\<close>

lemma reparse_rendered:
  assumes out: "moderateMessage parse content = Some m"
    and roundtrip: "parse (JSON_stringify (categories m)) = Some (JArr (map JStr (categories m)))"
  shows "moderateMessage parse (JStr (JSON_stringify (categories m))) = Some m"
proof -
  from out obtain cats where cats: "format_categories cats = Inr (categories m)"
    and m: "m = \<lparr>categories = categories m, source = ''llama-guard3'',
                  flagged = list_ex (\<lambda>cat. cat \<in> set unsafeCategories) (categories m)\<rparr>"
    by (auto simp: moderateMessage_def split: if_splits json.splits sum.splits)
  from format_categories_image [OF cats] obtain xs where "categories m = map format_category xs" ..
  then have fixed: "map format_category (categories m) = categories m"
    by (simp add: format_category_idem)
  have "parseOllamaResponse parse (JStr (JSON_stringify (categories m)))
          = JArr (map JStr (categories m))"
    using roundtrip stringify_brackets [of "categories m"]
    by (simp add: parseOllamaResponse_def parseOllamaResponse_body_def clean_stringify)
  moreover have "JSON_stringify (categories m) \<noteq> []" by (simp add: JSON_stringify_def)
  ultimately have "moderateMessage parse (JStr (JSON_stringify (categories m)))
      = Some \<lparr>categories = categories m, source = ''llama-guard3'',
                  flagged = list_ex (\<lambda>cat. cat \<in> set unsafeCategories) (categories m)\<rparr>"
    by (simp add: moderateMessage_def format_categories_strings fixed)
  with m show ?thesis by simp
qed

text \<open>
  Claim C9: the categories of every moderation that is saved, rendered as a JSON array
  and parsed and formatted again, give the same moderation, hence the same categories.
  This holds for every parser that reads the rendered array back, and the reference
  reader does.
\<close>

theorem rendered_output_reparsed:
  "(\<forall>parse content m.
      moderateMessage parse content = Some m \<longrightarrow>
      parse (JSON_stringify (categories m)) = Some (JArr (map JStr (categories m))) \<longrightarrow>
      moderateMessage parse (JStr (JSON_stringify (categories m))) = Some m)
   \<and> (\<forall>content m.
      moderateMessage json_parse content = Some m \<longrightarrow>
      moderateMessage json_parse (JStr (JSON_stringify (categories m))) = Some m)"
  by (auto intro: reparse_rendered json_parse_stringify)

theorem rendered_output_reparsed_witness:
  \<open>moderateMessage json_parse (JStr (JSON_stringify [''S1'', ''safe'']))
     = Some \<lparr>categories = [''S1'', ''safe''], source = ''llama-guard3'', flagged = True\<rparr>\<close>
proof -
  have h: \<open>moderateMessage json_parse (JStr ''["S1","safe"]'')
     = Some \<lparr>categories = [''S1'', ''safe''], source = ''llama-guard3'', flagged = True\<rparr>\<close>
    by code_simp
  from rendered_output_reparsed [THEN conjunct2, rule_format, OF h]
  show ?thesis by simp
qed

end
